theory Spec2Isabelle
  imports Complex_Main "HOL-Library.Sublist" "HOL-Library.AList"
begin

section \<open>Outcomes of Python calls\<close>

text \<open>
  A call of the script either returns a value or raises: its result is a sum
  \<open>exn + 'a\<close>, with \<open>Inl e\<close> for "raises \<open>e\<close>" and \<open>Inr v\<close> for "returns \<open>v\<close>".
  The exceptions are the ones the script and the library calls it makes can raise;
  \<open>sys.exit(n)\<close> is the exception \<open>SystemExit n\<close>, as in Python.
\<close>

datatype exn =
    StopIteration
  | TypeError
  | TimeoutError
  | TimeoutExpired
  | UnicodeDecodeError
  | FileNotFoundError
  | FileExistsError
  | NotADirectoryError
  | IsADirectoryError
  | BadZipFile
  | KeyError
  | IndexError
  | SystemExit nat
  | OtherError string

section \<open>The host: what the script asks of the machine it runs on\<close>

text \<open>
  The script reads the machine through library calls whose answers depend on the
  machine: \<open>shutil.which\<close>, \<open>subprocess.run\<close> on a well-formed command (it raises, or
  the child completes and its captured standard output comes back) and the first
  component of \<open>mimetypes.guess_type\<close> (table driven, the tables are read from the
  machine).  They are fields of a record, with the test that \<open>bytes.decode('utf-8')\<close>
  makes, whether the bytes are UTF-8, which is left open in the same way.  Every
  definition that needs them takes the host as its first argument.
\<close>

record host =
  which :: "string \<Rightarrow> string option"
  spawn :: "string list \<Rightarrow> exn + string"
  utf8 :: "string \<Rightarrow> bool"
  guess_type :: "string \<Rightarrow> string option"

definition GLOBAL_TIMEOUT :: nat where
  "GLOBAL_TIMEOUT = 1800"

text \<open>
  \<open>run(command)\<close> is \<open>subprocess.run(command, stdout=PIPE, timeout=GLOBAL_TIMEOUT)\<close>.
  An argument list holding \<open>None\<close> is refused by \<open>subprocess\<close> with a \<open>TypeError\<close>
  before any process is started.  The value returned stands for \<open>output.stdout\<close>.
\<close>

definition run :: "host \<Rightarrow> string option list \<Rightarrow> exn + string" where
  "run h command =
     (if None \<in> set command then Inl TypeError else spawn h (map the command))"

definition decode :: "host \<Rightarrow> string \<Rightarrow> exn + string" where
  "decode h bytes = (if utf8 h bytes then Inr bytes else Inl UnicodeDecodeError)"

text \<open>
  \<open>str.strip()\<close> removes leading and trailing whitespace.  Text is kept as its UTF-8
  bytes, and the whitespace removed is the ASCII whitespace of Python: tab, line feed,
  vertical tab, form feed, carriage return, the separators \<open>0x1c\<close> to \<open>0x1f\<close> and space.
\<close>

definition is_space :: "char \<Rightarrow> bool" where
  "is_space c = (of_char c \<in> set [9, 10, 11, 12, 13, 28, 29, 30, 31, 32 :: nat])"

definition strip :: "string \<Rightarrow> string" where
  "strip s = rev (dropWhile is_space (rev (dropWhile is_space s)))"

section \<open>Hardware probe\<close>

definition valid_keywords :: "string list" where
  "valid_keywords =
     [''bios-vendor'', ''bios-version'', ''bios-release-date'',
      ''system-manufacturer'', ''system-product-name'', ''system-version'',
      ''system-serial-number'', ''system-uuid'',
      ''baseboard-manufacturer'', ''baseboard-product-name'', ''baseboard-version'',
      ''baseboard-serial-number'', ''baseboard-asset-tag'',
      ''chassis-manufacturer'', ''chassis-type'', ''chassis-version'',
      ''chassis-serial-number'', ''chassis-asset-tag'',
      ''processor-family'', ''processor-manufacturer'', ''processor-version'',
      ''processor-frequency'']"

text \<open>
  The console is the list of lines printed so far: a text, or the report of the timing
  wrapper, \<open>f"{name} took {duration} seconds to run"\<close>, kept with its number.
  \<open>dmidecode\<close> takes the console and returns it with what it printed.
\<close>

datatype line = Text string | Took string real

type_synonym console = "line list"

definition dmidecode :: "host \<Rightarrow> string \<Rightarrow> console \<Rightarrow> (exn + string option) \<times> console" where
  "dmidecode h string out =
     (if string \<notin> set valid_keywords
      then (Inr None, out @ [Text (''Error: '' @ string @ '' is not a valid keyword'')])
      else
        let dmidecode_path = which h ''dmidecode'';
            command = [dmidecode_path, Some ''-s'', Some string]
        in case run h command of
             Inl e \<Rightarrow> (Inl e, out)
           | Inr stdout \<Rightarrow>
               (case decode h stdout of
                  Inl e \<Rightarrow> (Inl e, out)
                | Inr text \<Rightarrow> (Inr (Some (strip text)), out)))"




section \<open>Vendor resolver and substring search\<close>





section \<open>Path strings\<close>

text \<open>\<open>str.split("/")\<close>: the pieces between the slashes, empty pieces kept.\<close>

fun split_slash :: "string \<Rightarrow> string list" where
  "split_slash [] = [[]]"
| "split_slash (c # cs) =
     (if c = CHR ''/'' then [] # split_slash cs
      else case split_slash cs of
             [] \<Rightarrow> [[c]]
           | w # ws \<Rightarrow> (c # w) # ws)"

text \<open>\<open>str.rfind(c)\<close>: the last index of \<open>c\<close>, or \<open>-1\<close>.\<close>

fun rfind :: "char \<Rightarrow> string \<Rightarrow> int" where
  "rfind c [] = - 1"
| "rfind c (x # xs) =
     (let r = rfind c xs
      in if 0 \<le> r then r + 1 else if x = c then 0 else - 1)"

text \<open>
  \<open>os.path.splitext\<close> (\<open>genericpath._splitext\<close> with separator \<open>/\<close> and extension
  separator \<open>.\<close>).  Its loop looks, from the start of the last path component up to the
  last dot, for a character that is not a dot: leading dots of the file name do not start
  an extension.
\<close>

function splitext_loop :: "string \<Rightarrow> nat \<Rightarrow> nat \<Rightarrow> bool" where
  "splitext_loop p filenameIndex dotIndex =
     (if filenameIndex < dotIndex
      then (if p ! filenameIndex \<noteq> CHR ''.'' then True
            else splitext_loop p (filenameIndex + 1) dotIndex)
      else False)"
  by pat_completeness auto
termination
  by (relation "measure (\<lambda>(p, i, d). d - i)") auto

definition splitext :: "string \<Rightarrow> string \<times> string" where
  "splitext p =
     (let sepIndex = rfind (CHR ''/'') p;
          dotIndex = rfind (CHR ''.'') p
      in if dotIndex > sepIndex \<and> splitext_loop p (nat (sepIndex + 1)) (nat dotIndex)
         then (take (nat dotIndex) p, drop (nat dotIndex) p)
         else (p, []))"

text \<open>
  The directory name \<open>extract\<close> derives from an entry name \<open>f\<close>:
  \<open>"".join(os.path.splitext(f)[0].split("/")[:-1])\<close>.
\<close>

definition dirname :: "string \<Rightarrow> string" where
  "dirname f = concat (butlast (split_slash (fst (splitext f))))"

section \<open>The file system\<close>

text \<open>
  The content of a file is a blob: bytes that \<open>zipfile.ZipFile\<close> rejects (\<open>Raw\<close>), or a
  zip archive, given by its entries in archive order, each a name and a content
  (\<open>Zip\<close>).  The file system is a tree of directories and files, without links and
  permissions; a path from the root is a list of names.
\<close>

datatype blob = Raw string | Zip "(string \<times> blob) list"

type_synonym archive = "(string \<times> blob) list"

datatype node = File blob | Dir "(string \<times> node) list"

type_synonym path = "string list"

fun walk :: "node \<Rightarrow> path \<Rightarrow> node option" where
  "walk n [] = Some n"
| "walk (File b) (c # cs) = None"
| "walk (Dir es) (c # cs) = (case map_of es c of None \<Rightarrow> None | Some n \<Rightarrow> walk n cs)"

definition is_dir :: "node option \<Rightarrow> bool" where
  "is_dir x = (case x of Some (Dir es) \<Rightarrow> True | _ \<Rightarrow> False)"

text \<open>
  The error of a failed lookup: \<open>ENOTDIR\<close> when the path runs through a file,
  \<open>ENOENT\<close> otherwise.
\<close>

fun missing :: "node \<Rightarrow> path \<Rightarrow> exn" where
  "missing n [] = FileNotFoundError"
| "missing (File b) (c # cs) = NotADirectoryError"
| "missing (Dir es) (c # cs) =
     (case map_of es c of None \<Rightarrow> FileNotFoundError | Some n \<Rightarrow> missing n cs)"

text \<open>
  \<open>put p n tree\<close> is the tree with \<open>n\<close> at \<open>p\<close>: the entry of the parent directory is
  replaced or added.  The operations below call it only when the parent of \<open>p\<close> is a
  directory; elsewhere it leaves the tree as it is.
\<close>

fun put :: "path \<Rightarrow> node \<Rightarrow> node \<Rightarrow> node" where
  "put [] n tree = n"
| "put (c # cs) n (File b) = File b"
| "put (c # cs) n (Dir es) =
     (if cs = [] then Dir (AList.update c n es)
      else case map_of es c of
             None \<Rightarrow> Dir es
           | Some child \<Rightarrow> Dir (AList.update c (put cs n child) es))"

text \<open>\<open>os.mkdir(p)\<close>.\<close>

definition os_mkdir :: "path \<Rightarrow> node \<Rightarrow> exn + node" where
  "os_mkdir p tree =
     (case walk tree p of
        Some n \<Rightarrow> Inl FileExistsError
      | None \<Rightarrow>
          (case walk tree (butlast p) of
             Some (Dir es) \<Rightarrow> Inr (put p (Dir []) tree)
           | Some (File b) \<Rightarrow> Inl NotADirectoryError
           | None \<Rightarrow> Inl (missing tree (butlast p))))"

text \<open>\<open>open(p, "wb")\<close> followed by the copy of the content and the close.\<close>

definition write_file :: "path \<Rightarrow> blob \<Rightarrow> node \<Rightarrow> exn + node" where
  "write_file p content tree =
     (case walk tree p of
        Some (Dir es) \<Rightarrow> Inl IsADirectoryError
      | Some (File b) \<Rightarrow> Inr (put p (File content) tree)
      | None \<Rightarrow>
          (case walk tree (butlast p) of
             Some (Dir es) \<Rightarrow> Inr (put p (File content) tree)
           | Some (File b) \<Rightarrow> Inl NotADirectoryError
           | None \<Rightarrow> Inl (missing tree (butlast p))))"

text \<open>
  \<open>os.makedirs(name)\<close> with \<open>exist_ok=False\<close>, on a normalised path: when the parent
  (\<open>head\<close>) does not exist it is made first, a \<open>FileExistsError\<close> of that call being
  passed over, and then \<open>os.mkdir(name)\<close> runs.
\<close>

function makedirs :: "path \<Rightarrow> node \<Rightarrow> exn + node" where
  "makedirs name tree =
     (if name \<noteq> [] \<and> walk tree (butlast name) = None
      then (case makedirs (butlast name) tree of
              Inl e \<Rightarrow> (if e = FileExistsError then os_mkdir name tree else Inl e)
            | Inr tree' \<Rightarrow> os_mkdir name tree')
      else os_mkdir name tree)"
  by pat_completeness auto
termination
  by (relation "measure (\<lambda>(name, tree). length name)") auto

text \<open>
  \<open>pathlib.Path(p).mkdir(parents=True, exist_ok=True)\<close>: \<open>os.mkdir\<close>; on
  \<open>FileNotFoundError\<close> the parent is made in the same way and \<open>os.mkdir\<close> is tried
  again; any other \<open>OSError\<close> is passed over when \<open>p\<close> is a directory.
\<close>

definition mkdir_exist_ok :: "path \<Rightarrow> node \<Rightarrow> exn + node" where
  "mkdir_exist_ok p tree =
     (case os_mkdir p tree of
        Inr tree' \<Rightarrow> Inr tree'
      | Inl e \<Rightarrow> (if e \<noteq> FileNotFoundError \<and> is_dir (walk tree p) then Inr tree else Inl e))"

function Path_mkdir :: "path \<Rightarrow> node \<Rightarrow> exn + node" where
  "Path_mkdir p tree =
     (case os_mkdir p tree of
        Inr tree' \<Rightarrow> Inr tree'
      | Inl e \<Rightarrow>
          (if e = FileNotFoundError
           then (if p = [] then Inl e
                 else case Path_mkdir (butlast p) tree of
                        Inl e' \<Rightarrow> Inl e'
                      | Inr tree' \<Rightarrow> mkdir_exist_ok p tree')
           else if is_dir (walk tree p) then Inr tree else Inl e))"
  by pat_completeness auto
termination
  by (relation "measure (\<lambda>(p, tree). length p)") auto

section \<open>Path names of the process\<close>

text \<open>
  The working directory of the process is a path \<open>cwd\<close> from the root; it names an
  existing directory (the theorems that need it say so).  \<open>os.getcwd()\<close> is its text.
\<close>

definition getcwd :: "path \<Rightarrow> string" where
  "getcwd cwd = (if cwd = [] then ''/'' else concat (map (\<lambda>c. ''/'' @ c) cwd))"

text \<open>
  What the kernel does with a path name: from the directory \<open>cur\<close> it follows the
  components; an empty component and \<open>.\<close> stay, \<open>..\<close> goes to the parent, and every
  component is looked up in a directory.
\<close>

fun resolve :: "node \<Rightarrow> path \<Rightarrow> string list \<Rightarrow> exn + path" where
  "resolve tree cur [] = Inr cur"
| "resolve tree cur (c # cs) =
     (case walk tree cur of
        Some (Dir es) \<Rightarrow>
          (if c = [] \<or> c = ''.'' then resolve tree cur cs
           else if c = ''..'' then resolve tree (butlast cur) cs
           else resolve tree (cur @ [c]) cs)
      | Some (File b) \<Rightarrow> Inl NotADirectoryError
      | None \<Rightarrow> Inl (missing tree cur))"

definition lookup :: "node \<Rightarrow> path \<Rightarrow> string \<Rightarrow> exn + node" where
  "lookup tree cwd name =
     (if name = [] then Inl FileNotFoundError
      else case resolve tree (if hd name = CHR ''/'' then [] else cwd) (split_slash name) of
             Inl e \<Rightarrow> Inl e
           | Inr p \<Rightarrow> (case walk tree p of None \<Rightarrow> Inl (missing tree p) | Some n \<Rightarrow> Inr n))"

text \<open>\<open>os.path.exists(name)\<close>.\<close>

definition path_exists :: "node \<Rightarrow> path \<Rightarrow> string \<Rightarrow> bool" where
  "path_exists tree cwd name = (case lookup tree cwd name of Inl e \<Rightarrow> False | Inr n \<Rightarrow> True)"

text \<open>
  The directory that a name without slashes denotes, as \<open>dirname\<close> is: the working
  directory for the empty name and \<open>.\<close>, its parent for \<open>..\<close>, an entry of the working
  directory otherwise.
\<close>

definition locate :: "path \<Rightarrow> string \<Rightarrow> path" where
  "locate cwd d =
     (if d = [] \<or> d = ''.'' then cwd
      else if d = ''..'' then butlast cwd
      else cwd @ [d])"

section \<open>Zip archives\<close>

text \<open>\<open>zipfile.ZipFile(filename)\<close> and \<open>zipfile.ZipFile(io.BytesIO(content))\<close>.\<close>

definition ZipFile_bytes :: "blob \<Rightarrow> exn + archive" where
  "ZipFile_bytes content = (case content of Raw bytes \<Rightarrow> Inl BadZipFile | Zip z \<Rightarrow> Inr z)"

definition ZipFile :: "node \<Rightarrow> path \<Rightarrow> string \<Rightarrow> exn + archive" where
  "ZipFile tree cwd filename =
     (case lookup tree cwd filename of
        Inl e \<Rightarrow> Inl e
      | Inr (Dir es) \<Rightarrow> Inl IsADirectoryError
      | Inr (File content) \<Rightarrow> ZipFile_bytes content)"

definition namelist :: "archive \<Rightarrow> string list" where
  "namelist z = map fst z"

text \<open>
  \<open>getinfo(name)\<close> reads the dictionary \<open>NameToInfo\<close>, in which a later entry of the
  same name has replaced an earlier one.
\<close>

definition getinfo :: "archive \<Rightarrow> string \<Rightarrow> exn + blob" where
  "getinfo z name = (case map_of (rev z) name of None \<Rightarrow> Inl KeyError | Some content \<Rightarrow> Inr content)"

definition read :: "archive \<Rightarrow> string \<Rightarrow> exn + blob" where
  "read z name = getinfo z name"

text \<open>
  \<open>ZipFile._extract_member(member, targetpath)\<close>.  The member's name loses its empty,
  \<open>.\<close> and \<open>..\<close> components and is joined to the target directory \<open>base\<close>; the
  directories above are made when they do not exist; a member whose name ends in a
  slash is a directory, any other is written as a file.
\<close>

definition arcname :: "string \<Rightarrow> path" where
  "arcname filename = filter (\<lambda>x. x \<notin> {[], ''.'', ''..''}) (split_slash filename)"

definition member_is_dir :: "string \<Rightarrow> bool" where
  "member_is_dir filename = (filename \<noteq> [] \<and> last filename = CHR ''/'')"

definition extract_member :: "archive \<Rightarrow> string \<Rightarrow> path \<Rightarrow> node \<Rightarrow> exn + node" where
  "extract_member z member base tree =
     (case getinfo z member of
        Inl e \<Rightarrow> Inl e
      | Inr content \<Rightarrow>
          let targetpath = base @ arcname member;
              upperdirs = butlast targetpath
          in case (if walk tree upperdirs = None then makedirs upperdirs tree else Inr tree) of
               Inl e \<Rightarrow> Inl e
             | Inr tree1 \<Rightarrow>
                 if member_is_dir member
                 then (if is_dir (walk tree1 targetpath) then Inr tree1
                       else os_mkdir targetpath tree1)
                 else write_file targetpath content tree1)"

text \<open>
  \<open>for i in members: z.extract(i, base)\<close>, the inner loop of \<open>extract\<close> and the loop of
  \<open>extractall\<close>.
\<close>

fun extract_members :: "archive \<Rightarrow> string list \<Rightarrow> path \<Rightarrow> node \<Rightarrow> exn + node" where
  "extract_members z [] base tree = Inr tree"
| "extract_members z (i # members) base tree =
     (case extract_member z i base tree of
        Inl e \<Rightarrow> Inl e
      | Inr tree1 \<Rightarrow> extract_members z members base tree1)"

definition extractall :: "archive \<Rightarrow> path \<Rightarrow> node \<Rightarrow> exn + node" where
  "extractall z cwd tree = extract_members z (namelist z) cwd tree"

section \<open>Archive extractor\<close>

definition expected_type :: string where
  "expected_type = ''application/zip''"

text \<open>
  The loop \<open>for f in z.namelist()\<close> of \<open>extract\<close>, from the names still to visit.  It
  has no \<open>break\<close>, so its \<open>else\<close> branch, \<open>z.extractall()\<close>, runs whenever the loop
  ends without raising.
\<close>

fun scan :: "host \<Rightarrow> path \<Rightarrow> archive \<Rightarrow> string list \<Rightarrow> node \<Rightarrow> exn + node" where
  "scan h cwd z [] tree = Inr tree"
| "scan h cwd z (f # fs) tree =
     (if guess_type h f \<noteq> Some expected_type then scan h cwd z fs tree
      else
        case Path_mkdir (locate cwd (dirname f)) tree of
          Inl e \<Rightarrow> Inl e
        | Inr tree1 \<Rightarrow>
            (case read z f of
               Inl e \<Rightarrow> Inl e
             | Inr content \<Rightarrow>
                 (case ZipFile_bytes content of
                    Inl e \<Rightarrow> Inl e
                  | Inr zip_file \<Rightarrow>
                      (case extract_members zip_file (namelist zip_file)
                              (locate cwd (dirname f)) tree1 of
                         Inl e \<Rightarrow> Inl e
                       | Inr tree2 \<Rightarrow> scan h cwd z fs tree2))))"

text \<open>
  \<open>extract(filename)\<close> returns \<open>None\<close> or the list of paths, and leaves a file system;
  the file system after a raise is not tracked.
\<close>

definition "extract" :: "host \<Rightarrow> path \<Rightarrow> string \<Rightarrow> node \<Rightarrow> exn + (string list option \<times> node)" where
  "extract h cwd filename tree =
     (if guess_type h filename \<noteq> Some expected_type then Inr (None, tree)
      else
        case ZipFile tree cwd filename of
          Inl e \<Rightarrow> Inl e
        | Inr z \<Rightarrow>
            (case scan h cwd z (namelist z) tree of
               Inl e \<Rightarrow> Inl e
             | Inr tree1 \<Rightarrow>
                 (case extractall z cwd tree1 of
                    Inl e \<Rightarrow> Inl e
                  | Inr tree2 \<Rightarrow>
                      Inr (Some (map (\<lambda>res. getcwd cwd @ ''/'' @ res) (namelist z)), tree2))))"

section \<open>Timing and timeout wrappers\<close>

text \<open>
  The state of the process: what it has printed, the file system, the wall clock, the
  seconds left on the pending alarm (\<open>0\<close> when none is pending) and the handler
  installed for \<open>SIGALRM\<close>.  A wrapped function is any function from the state to a
  result and a state: it may print, let time pass, raise, or be interrupted by the
  alarm, whose handler raises \<open>TimeoutError\<close> inside it.
\<close>

datatype handler = SIG_DFL | handle_timeout

record world =
  console :: console
  disk :: node
  clock :: real
  alarm :: nat
  sigalrm :: handler

text \<open>
  \<open>round(x, 2)\<close>: the closest multiple of \<open>1/100\<close>, the even one of two equally
  close.  The clock readings are real numbers here; their binary floating point is not
  modelled.
\<close>

definition round_half_even :: "real \<Rightarrow> int" where
  "round_half_even x =
     (let f = \<lfloor>x\<rfloor>; d = x - of_int f
      in if d < 1 / 2 then f
         else if 1 / 2 < d then f + 1
         else if even f then f else f + 1)"

definition round2 :: "real \<Rightarrow> real" where
  "round2 x = of_int (round_half_even (x * 100)) / 100"

text \<open>\<open>timer(func)\<close>; \<open>name\<close> is \<open>func.__name__\<close>.\<close>

definition timer :: "string \<Rightarrow> (world \<Rightarrow> (exn + 'a) \<times> world) \<Rightarrow> world \<Rightarrow> (exn + 'a) \<times> world" where
  "timer name func w =
     (let start = clock w
      in case func w of
           (Inl e, w1) \<Rightarrow> (Inl e, w1)
         | (Inr result, w1) \<Rightarrow>
             (let finish = clock w1;
                  duration = round2 (finish - start)
              in (Inr result, w1\<lparr>console := console w1 @ [Took name duration]\<rparr>)))"

text \<open>
  \<open>timeout(seconds)(func)\<close>: the handler is installed, the alarm is set, \<open>func\<close> runs
  inside \<open>try\<close>, and \<open>finally\<close> runs \<open>signal.alarm(0)\<close>.  The wrapper returns nothing.
\<close>

definition timeout :: "nat \<Rightarrow> (world \<Rightarrow> (exn + 'a) \<times> world) \<Rightarrow> world \<Rightarrow> (exn + unit) \<times> world" where
  "timeout seconds func w =
     (let w1 = w\<lparr>sigalrm := handle_timeout\<rparr>;
          w2 = w1\<lparr>alarm := seconds\<rparr>
      in case func w2 of
           (Inl e, w3) \<Rightarrow> (Inl e, w3\<lparr>alarm := 0\<rparr>)
         | (Inr result, w3) \<Rightarrow> (Inr (), w3\<lparr>alarm := 0\<rparr>))"

section \<open>Orchestrator\<close>







section \<open>What a file-system step may do\<close>

text \<open>
  The predicates of the statements and invariants about the tree.  A member of an
  archive counts as extracted under a directory when its target, the directory followed
  by the member's cleaned name, is a directory for a directory member and a file for
  any other.  A name is plain when it can be an entry of a directory: not empty, not
  \<open>.\<close> or \<open>..\<close>, without a slash.  \<open>names_of\<close> lists every entry name of the tree.
\<close>

definition is_file :: "node option \<Rightarrow> bool" where
  "is_file x = (case x of Some (File b) \<Rightarrow> True | _ \<Rightarrow> False)"

definition extracted :: "node \<Rightarrow> path \<Rightarrow> string \<Rightarrow> bool" where
  "extracted t base member =
     (if member_is_dir member then is_dir (walk t (base @ arcname member))
      else is_file (walk t (base @ arcname member)))"

definition plain :: "string \<Rightarrow> bool" where
  "plain c = (c \<notin> {[], ''.'', ''..''} \<and> CHR ''/'' \<notin> set c)"


text \<open>
  The invariants of the proofs: from \<open>t\<close> to \<open>t'\<close> every directory stays a directory
  and every file stays a file (\<open>grows\<close>), and every file of \<open>t'\<close> either was in \<open>t\<close>
  with the same content or holds a content of the set \<open>S\<close> (\<open>written\<close>).
\<close>

definition grows :: "node \<Rightarrow> node \<Rightarrow> bool" where
  "grows t t' = (\<forall>q. (is_dir (walk t q) \<longrightarrow> is_dir (walk t' q)) \<and>
                      (is_file (walk t q) \<longrightarrow> is_file (walk t' q)))"

definition written :: "blob set \<Rightarrow> node \<Rightarrow> node \<Rightarrow> bool" where
  "written S t t' = (\<forall>q b. walk t' q = Some (File b) \<longrightarrow> walk t q = Some (File b) \<or> b \<in> S)"

definition safe_step :: "blob set \<Rightarrow> node \<Rightarrow> node \<Rightarrow> bool" where
  "safe_step S t t' = (grows t t' \<and> written S t t')"

definition inner_blobs :: "host \<Rightarrow> archive \<Rightarrow> blob set" where
  "inner_blobs h z =
     {b. \<exists>f inner. (f, Zip inner) \<in> set z \<and> guess_type h f = Some expected_type \<and> b \<in> snd ` set inner}"

section \<open>Sample machines, archives and disks\<close>

text \<open>
  The inputs at which the statements below are evaluated.  The mime table of the sample
  machines knows one type, \<open>application/zip\<close> for the suffix \<open>.zip\<close>.  The first machine
  has \<open>dmidecode\<close> and answers as a Gigabyte X570 board does; its listing of the working
  directory shows one file, \<open>X570_notes.txt\<close>.  The second has no \<open>dmidecode\<close> and no
  listing command.
\<close>

definition suffix_table :: "string \<Rightarrow> string option" where
  "suffix_table p = (if suffix ''.zip'' p then Some ''application/zip'' else None)"

definition sample_listing :: string where
  "sample_listing =
     ''total 4'' @ [CHR 0x0A] @
     ''-rw-r--r-- 1 root root 12 Nov 3 X570_notes.txt'' @ [CHR 0x0A]"

definition sample_spawn :: "string list \<Rightarrow> exn + string" where
  "sample_spawn command =
     (if command = [''/usr/sbin/dmidecode'', ''-s'', ''bios-version'']
      then Inr (''F1'' @ [CHR 0x0A])
      else if command = [''/usr/sbin/dmidecode'', ''-s'', ''baseboard-manufacturer'']
      then Inr (''Gigabyte Technology Co., Ltd.'' @ [CHR 0x0A])
      else if command = [''/usr/sbin/dmidecode'', ''-s'', ''system-product-name'']
      then Inr (''X570'' @ [CHR 0x0A])
      else if command = [''/bin/ls'', ''-l'']
      then Inr sample_listing
      else Inl FileNotFoundError)"

definition sample_host :: host where
  "sample_host =
     \<lparr> which = (\<lambda>name. if name = ''dmidecode'' then Some ''/usr/sbin/dmidecode'' else None),
       spawn = sample_spawn,
       utf8 = (\<lambda>bytes. True),
       guess_type = suffix_table \<rparr>"


text \<open>
  The archive of the nested case: \<open>pkg/inner.zip\<close>, itself an archive with one member
  \<open>tool.sh\<close>, and \<open>readme.txt\<close>; it is the file \<open>fw.zip\<close> of the working directory
  \<open>/work\<close>.  \<open>disk_after\<close> is the disk that the extraction leaves.
\<close>

definition inner_zip :: archive where
  "inner_zip = [(''tool.sh'', Raw ''run'')]"

definition outer_zip :: archive where
  "outer_zip = [(''pkg/inner.zip'', Zip inner_zip), (''readme.txt'', Raw ''hello'')]"

definition disk_before :: node where
  "disk_before = Dir [(''work'', Dir [(''fw.zip'', File (Zip outer_zip))])]"

definition disk_after :: node where
  "disk_after =
     Dir [(''work'',
           Dir [(''fw.zip'', File (Zip outer_zip)),
                (''pkg'', Dir [(''tool.sh'', File (Raw ''run'')),
                               (''inner.zip'', File (Zip inner_zip))]),
                (''readme.txt'', File (Raw ''hello''))])]"






text \<open>An archive whose nested zip lies two directories deep.\<close>

definition twolevel_zip :: archive where
  "twolevel_zip = [(''a/b/inner.zip'', Zip inner_zip)]"

definition twolevel_before :: node where
  "twolevel_before = Dir [(''work'', Dir [(''fw.zip'', File (Zip twolevel_zip))])]"

definition twolevel_after :: node where
  "twolevel_after =
     Dir [(''work'',
           Dir [(''fw.zip'', File (Zip twolevel_zip)),
                (''ab'', Dir [(''tool.sh'', File (Raw ''run''))]),
                (''a'', Dir [(''b'', Dir [(''inner.zip'', File (Zip inner_zip))])])])]"

text \<open>An archive with one entry, named \<open>../x\<close>.\<close>

definition dotdot_zip :: archive where
  "dotdot_zip = [(''../x'', Raw ''X'')]"

definition dotdot_before :: node where
  "dotdot_before = Dir [(''work'', Dir [(''fw.zip'', File (Zip dotdot_zip))])]"

definition dotdot_after :: node where
  "dotdot_after =
     Dir [(''work'', Dir [(''fw.zip'', File (Zip dotdot_zip)), (''x'', File (Raw ''X''))])]"

text \<open>
  A state of the process, and two wrapped functions: one returns after 2.345 seconds,
  one raises after 5 seconds.
\<close>

definition sample_world :: world where
  "sample_world =
     \<lparr> console = [], disk = disk_before, clock = 100, alarm = 0, sigalrm = SIG_DFL \<rparr>"

definition returns_late :: "world \<Rightarrow> (exn + unit) \<times> world" where
  "returns_late w = (Inr (), w\<lparr>clock := clock w + 2.345\<rparr>)"

definition raises_late :: "world \<Rightarrow> (exn + unit) \<times> world" where
  "raises_late w = (Inl (OtherError ''updater failed''), w\<lparr>clock := clock w + 5\<rparr>)"


section \<open>Walking and changing the tree\<close>

lemma is_dir_simps [simp]:
  "is_dir None = False" "is_dir (Some (File b)) = False" "is_dir (Some (Dir es)) = True"
  by (simp_all add: is_dir_def)

lemma is_file_simps [simp]:
  "is_file None = False" "is_file (Some (File b)) = True" "is_file (Some (Dir es)) = False"
  by (simp_all add: is_file_def)

lemma walk_append:
  "walk t (p @ q) = (case walk t p of None \<Rightarrow> None | Some n \<Rightarrow> walk n q)"
proof (induction p arbitrary: t)
  case Nil
  show ?case by simp
next
  case (Cons c cs)
  show ?case
  proof (cases t)
    case (File b)
    then show ?thesis by simp
  next
    case (Dir es)
    then show ?thesis using Cons.IH by (simp split: option.split)
  qed
qed

lemma walk_below_file: "walk t p = Some (File b) \<Longrightarrow> r \<noteq> [] \<Longrightarrow> walk t (p @ r) = None"
  by (cases r) (simp_all add: walk_append)

lemma walk_below_none: "walk t p = None \<Longrightarrow> walk t (p @ r) = None"
  by (simp add: walk_append)

lemma walk_above_dir: "walk t (p @ r) \<noteq> None \<Longrightarrow> r \<noteq> [] \<Longrightarrow> is_dir (walk t p)"
proof -
  assume a: "walk t (p @ r) \<noteq> None" and r: "r \<noteq> []"
  obtain c cs where rc: "r = c # cs" using r by (cases r) auto
  show ?thesis
  proof (cases "walk t p")
    case None
    with a show ?thesis by (simp add: walk_append)
  next
    case (Some n)
    with a rc show ?thesis by (cases n) (simp_all add: walk_append)
  qed
qed

lemma walk_put_under:
  "p \<noteq> [] \<Longrightarrow> is_dir (walk t (butlast p)) \<Longrightarrow> walk (put p n t) (p @ r) = walk n r"
proof (induction p arbitrary: t)
  case Nil
  then show ?case by simp
next
  case (Cons c cs)
  show ?case
  proof (cases t)
    case (File b)
    with Cons.prems show ?thesis by (cases cs) simp_all
  next
    case (Dir es)
    show ?thesis
    proof (cases "cs = []")
      case True
      with Dir show ?thesis by (simp add: update_conv')
    next
      case False
      with Cons.prems Dir obtain child where ch: "map_of es c = Some child"
        and d: "is_dir (walk child (butlast cs))"
        by (auto split: option.splits)
      from Cons.IH[OF False d] Dir False ch show ?thesis
        by (simp add: update_conv')
    qed
  qed
qed

lemma walk_put_apart:
  "\<not> prefix p q \<Longrightarrow> \<not> prefix q p \<Longrightarrow> walk (put p n t) q = walk t q"
proof (induction p arbitrary: t q)
  case Nil
  then show ?case by simp
next
  case (Cons c cs)
  from Cons.prems obtain c' q' where q: "q = c' # q'" by (cases q) auto
  show ?case
  proof (cases t)
    case (File b)
    then show ?thesis by simp
  next
    case (Dir es)
    show ?thesis
    proof (cases "c' = c")
      case False
      with Dir q show ?thesis by (simp add: update_conv' split: option.split)
    next
      case True
      with Cons.prems q have np: "\<not> prefix cs q'" "\<not> prefix q' cs" by auto
      then have ne: "cs \<noteq> []" by auto
      show ?thesis
      proof (cases "map_of es c")
        case None
        with Dir q True ne show ?thesis by simp
      next
        case (Some child)
        with Dir q True ne Cons.IH[OF np] show ?thesis by (simp add: update_conv')
      qed
    qed
  qed
qed

lemma walk_put_above:
  "strict_prefix q p \<Longrightarrow> is_dir (walk t q) \<Longrightarrow> is_dir (walk (put p n t) q)"
proof (induction p arbitrary: t q)
  case Nil
  then show ?case by simp
next
  case (Cons c cs)
  show ?case
  proof (cases q)
    case Nil
    with Cons.prems obtain es where "t = Dir es" by (cases t) auto
    with Nil show ?thesis by (simp split: option.split)
  next
    case (Cons c' q')
    with Cons.prems have cc: "c' = c" and sp: "strict_prefix q' cs" by auto
    from Cons.prems Cons obtain es where t: "t = Dir es" by (cases t) auto
    from sp have ne: "cs \<noteq> []" by auto
    from Cons.prems(2) Cons t cc obtain child where ch: "map_of es c = Some child"
      and d: "is_dir (walk child q')" by (auto split: option.splits)
    from Cons.IH[OF sp d] t Cons cc ch ne show ?thesis by (simp add: update_conv')
  qed
qed

lemma grows_refl: "grows t t"
  by (simp add: grows_def)

lemma grows_trans: "grows t t1 \<Longrightarrow> grows t1 t2 \<Longrightarrow> grows t t2"
  by (simp add: grows_def)

lemma written_refl: "written S t t"
  by (simp add: written_def)

lemma written_trans: "written S t t1 \<Longrightarrow> written S t1 t2 \<Longrightarrow> written S t t2"
  unfolding written_def by blast

lemma written_mono: "written S t t' \<Longrightarrow> S \<subseteq> S' \<Longrightarrow> written S' t t'"
  unfolding written_def by blast

lemma above_parent_dir:
  assumes "strict_prefix q p" and "is_dir (walk t (butlast p))"
  shows "is_dir (walk t q)"
proof -
  from assms(1) obtain r where p: "p = q @ r" and r: "r \<noteq> []"
    by (auto simp: strict_prefix_def prefix_def)
  then have b: "butlast p = q @ butlast r" by (simp add: butlast_append)
  show ?thesis
  proof (cases "butlast r = []")
    case True
    with b assms(2) show ?thesis by simp
  next
    case False
    from assms(2) b have "walk t (q @ butlast r) \<noteq> None"
      by (auto simp: is_dir_def split: option.splits)
    from walk_above_dir[OF this False] show ?thesis .
  qed
qed

lemma three_ways:
  obtains (under) r where "q = p @ r" | (above) "strict_prefix q p"
  | (apart) "\<not> prefix p q" "\<not> prefix q p"
  by (metis prefix_def prefix_order.less_le)

lemma put_grows:
  assumes ne: "p \<noteq> []" and par: "is_dir (walk t (butlast p))"
    and new: "walk t p = None \<or> (is_file (walk t p) \<and> is_file (Some n))"
  shows "grows t (put p n t)"
  unfolding grows_def
proof (intro allI)
  fix q
  show "(is_dir (walk t q) \<longrightarrow> is_dir (walk (put p n t) q)) \<and>
        (is_file (walk t q) \<longrightarrow> is_file (walk (put p n t) q))"
  proof (cases q p rule: three_ways)
    case (under r)
    show ?thesis
    proof (cases "walk t p")
      case None
      then show ?thesis using under by (simp add: walk_below_none)
    next
      case (Some m)
      with new obtain b where m: "m = File b" and n: "is_file (Some n)"
        by (cases m) auto
      show ?thesis
      proof (cases "r = []")
        case True
        with under Some m n walk_put_under[OF ne par, of n "[]"] show ?thesis by simp
      next
        case False
        with under Some m walk_below_file[of t p b r] show ?thesis by simp
      qed
    qed
  next
    case above
    from above_parent_dir[OF above par] have d: "is_dir (walk t q)" .
    then have "\<not> is_file (walk t q)" by (auto simp: is_dir_def is_file_def split: option.splits node.splits)
    with walk_put_above[OF above d] show ?thesis by simp
  next
    case apart
    then show ?thesis by (simp add: walk_put_apart)
  qed
qed

lemma put_written:
  assumes ne: "p \<noteq> []" and par: "is_dir (walk t (butlast p))"
    and w: "walk (put p n t) q = Some (File b)"
  shows "(\<exists>r. q = p @ r \<and> walk n r = Some (File b)) \<or> walk t q = Some (File b)"
proof (cases q p rule: three_ways)
  case (under r)
  with w walk_put_under[OF ne par, of n r] show ?thesis by simp
next
  case above
  from walk_put_above[OF above above_parent_dir[OF above par], of n] w show ?thesis by simp
next
  case apart
  with w show ?thesis by (simp add: walk_put_apart)
qed

lemma os_mkdir_Inr:
  assumes "os_mkdir p t = Inr t'"
  shows "t' = put p (Dir []) t" and "walk t p = None" and "p \<noteq> []"
    and "is_dir (walk t (butlast p))"
  using assms
  by (auto simp: os_mkdir_def split: option.splits node.splits)

lemma os_mkdir_grows: "os_mkdir p t = Inr t' \<Longrightarrow> grows t t'"
  using os_mkdir_Inr[of p t t'] put_grows[of p t "Dir []"] by simp

lemma os_mkdir_is_dir: "os_mkdir p t = Inr t' \<Longrightarrow> is_dir (walk t' p)"
  using os_mkdir_Inr[of p t t'] walk_put_under[of p t "Dir []" "[]"] by simp

lemma walk_empty_dir: "walk (Dir []) r = Some (File b) \<Longrightarrow> False"
  by (cases r) simp_all

lemma os_mkdir_written: "os_mkdir p t = Inr t' \<Longrightarrow> written S t t'"
  unfolding written_def
  using os_mkdir_Inr[of p t t'] put_written[of p t "Dir []"] walk_empty_dir by blast

lemma walk_file_node: "walk (File x) q = (if q = [] then Some (File x) else None)"
  by (cases q) simp_all

lemma parent_of_existing:
  assumes "walk t p \<noteq> None" and "p \<noteq> []"
  shows "is_dir (walk t (butlast p))"
proof -
  from assms(2) have "p = butlast p @ [last p]" by simp
  with assms(1) walk_above_dir[of t "butlast p" "[last p]"] show ?thesis by simp
qed

lemma write_file_Inr:
  assumes "write_file p c t = Inr t'"
  shows "t' = put p (File c) t"
    and "(p = [] \<and> is_file (Some t)) \<or>
         (p \<noteq> [] \<and> is_dir (walk t (butlast p)) \<and> (walk t p = None \<or> is_file (walk t p)))"
proof -
  show "t' = put p (File c) t"
    using assms by (auto simp: write_file_def split: option.splits node.splits)
  show "(p = [] \<and> is_file (Some t)) \<or>
         (p \<noteq> [] \<and> is_dir (walk t (butlast p)) \<and> (walk t p = None \<or> is_file (walk t p)))"
  proof (cases "p = []")
    case True
    with assms show ?thesis by (auto simp: write_file_def split: option.splits node.splits)
  next
    case False
    show ?thesis
    proof (cases "walk t p")
      case None
      with assms False show ?thesis
        by (auto simp: write_file_def split: option.splits node.splits)
    next
      case (Some m)
      with assms have "is_file (walk t p)"
        by (auto simp: write_file_def split: option.splits node.splits)
      moreover from Some False have "is_dir (walk t (butlast p))"
        by (intro parent_of_existing) simp_all
      ultimately show ?thesis using False by simp
    qed
  qed
qed

lemma write_file_grows:
  assumes "write_file p c t = Inr t'"
  shows "grows t t'"
proof -
  note w = write_file_Inr[OF assms]
  from w(2) show ?thesis
  proof
    assume "p = [] \<and> is_file (Some t)"
    then obtain x where "t = File x" "p = []" by (cases t) auto
    with w(1) show ?thesis by (simp add: grows_def walk_file_node)
  next
    assume "p \<noteq> [] \<and> is_dir (walk t (butlast p)) \<and> (walk t p = None \<or> is_file (walk t p))"
    with w(1) put_grows[of p t "File c"] show ?thesis by auto
  qed
qed

lemma write_file_is_file:
  assumes "write_file p c t = Inr t'"
  shows "walk t' p = Some (File c)"
proof -
  note w = write_file_Inr[OF assms]
  from w(2) show ?thesis
  proof
    assume "p = [] \<and> is_file (Some t)"
    with w(1) show ?thesis by simp
  next
    assume "p \<noteq> [] \<and> is_dir (walk t (butlast p)) \<and> (walk t p = None \<or> is_file (walk t p))"
    with w(1) walk_put_under[of p t "File c" "[]"] show ?thesis by simp
  qed
qed

lemma walk_file: "walk (File c) r = Some (File b) \<Longrightarrow> b = c"
  by (cases r) simp_all

lemma write_file_written:
  assumes "write_file p c t = Inr t'" and "c \<in> S"
  shows "written S t t'"
proof -
  note w = write_file_Inr[OF assms(1)]
  from w(2) show ?thesis
  proof
    assume "p = [] \<and> is_file (Some t)"
    with w(1) assms(2) show ?thesis by (auto simp: written_def dest: walk_file)
  next
    assume "p \<noteq> [] \<and> is_dir (walk t (butlast p)) \<and> (walk t p = None \<or> is_file (walk t p))"
    with w(1) assms(2) put_written[of p t "File c"] walk_file show ?thesis
      unfolding written_def by blast
  qed
qed

section \<open>The steps of an extraction keep what is on the disk\<close>

declare makedirs.simps [simp del] Path_mkdir.simps [simp del]

lemma safe_step_refl: "safe_step S t t"
  by (simp add: safe_step_def grows_refl written_refl)

lemma safe_step_trans: "safe_step S t t1 \<Longrightarrow> safe_step S t1 t2 \<Longrightarrow> safe_step S t t2"
  unfolding safe_step_def using grows_trans written_trans by blast

lemma safe_step_mono: "safe_step S t t' \<Longrightarrow> S \<subseteq> S' \<Longrightarrow> safe_step S' t t'"
  unfolding safe_step_def using written_mono by blast

lemma os_mkdir_safe: "os_mkdir p t = Inr t' \<Longrightarrow> safe_step S t t'"
  by (simp add: safe_step_def os_mkdir_grows os_mkdir_written)

lemma write_file_safe: "write_file p c t = Inr t' \<Longrightarrow> c \<in> S \<Longrightarrow> safe_step S t t'"
  by (simp add: safe_step_def write_file_grows write_file_written)

lemma makedirs_Inr:
  "makedirs name t = Inr t' \<Longrightarrow> safe_step S t t' \<and> is_dir (walk t' name)"
proof (induction name t arbitrary: t' rule: makedirs.induct)
  case (1 name t)
  show ?case
  proof (cases "name \<noteq> [] \<and> walk t (butlast name) = None")
    case False
    with "1.prems" have "os_mkdir name t = Inr t'"
      by (simp add: makedirs.simps[of name t])
    then show ?thesis by (simp add: os_mkdir_safe os_mkdir_is_dir)
  next
    case True
    show ?thesis
    proof (cases "makedirs (butlast name) t")
      case (Inl e)
      with True "1.prems" have "os_mkdir name t = Inr t'"
        by (simp add: makedirs.simps[of name t] split: if_splits)
      then show ?thesis by (simp add: os_mkdir_safe os_mkdir_is_dir)
    next
      case (Inr t1)
      with True "1.prems" have m: "os_mkdir name t1 = Inr t'"
        by (simp add: makedirs.simps[of name t])
      from "1.IH"[OF True Inr] have "safe_step S t t1" by simp
      with m show ?thesis
        using safe_step_trans os_mkdir_safe os_mkdir_is_dir by blast
    qed
  qed
qed

lemma mkdir_exist_ok_Inr:
  "mkdir_exist_ok p t = Inr t' \<Longrightarrow> safe_step S t t' \<and> is_dir (walk t' p)"
  by (auto simp: mkdir_exist_ok_def os_mkdir_safe os_mkdir_is_dir safe_step_refl
      split: sum.splits if_splits)

lemma Path_mkdir_Inr:
  "Path_mkdir p t = Inr t' \<Longrightarrow> safe_step S t t' \<and> is_dir (walk t' p)"
proof (induction p t arbitrary: t' rule: Path_mkdir.induct)
  case (1 p t)
  show ?case
  proof (cases "os_mkdir p t")
    case (Inr t1)
    with "1.prems" have "t1 = t'" by (simp add: Path_mkdir.simps[of p t])
    with Inr show ?thesis by (simp add: os_mkdir_safe os_mkdir_is_dir)
  next
    case (Inl e)
    show ?thesis
    proof (cases "e = FileNotFoundError")
      case False
      with Inl "1.prems" have "t' = t" "is_dir (walk t p)"
        by (simp_all add: Path_mkdir.simps[of p t] split: if_splits)
      then show ?thesis by (simp add: safe_step_refl)
    next
      case True
      with Inl "1.prems" have ne: "p \<noteq> []"
        by (auto simp: Path_mkdir.simps[of p t])
      with Inl True "1.prems" obtain t1 where p1: "Path_mkdir (butlast p) t = Inr t1"
        and m: "mkdir_exist_ok p t1 = Inr t'"
        by (auto simp: Path_mkdir.simps[of p t] split: sum.splits)
      from "1.IH"[OF Inl True ne p1] have "safe_step S t t1" by simp
      with mkdir_exist_ok_Inr[OF m, of S] show ?thesis
        using safe_step_trans by blast
    qed
  qed
qed

lemma getinfo_in: "getinfo z m = Inr c \<Longrightarrow> (m, c) \<in> set z"
  by (auto simp: getinfo_def split: option.splits dest: map_of_SomeD)

lemma extract_member_Inr:
  assumes "extract_member z m base t = Inr t'"
  shows "safe_step (snd ` set z) t t'"
    and "member_is_dir m \<Longrightarrow> is_dir (walk t' (base @ arcname m))"
    and "\<not> member_is_dir m \<Longrightarrow> is_file (walk t' (base @ arcname m))"
proof -
  from assms obtain c t1 where g: "getinfo z m = Inr c"
    and up: "(if walk t (butlast (base @ arcname m)) = None
              then makedirs (butlast (base @ arcname m)) t else Inr t) = Inr t1"
    and fin: "(if member_is_dir m
               then (if is_dir (walk t1 (base @ arcname m)) then Inr t1
                     else os_mkdir (base @ arcname m) t1)
               else write_file (base @ arcname m) c t1) = Inr t'"
    by (auto simp: extract_member_def Let_def split: sum.splits)
  from getinfo_in[OF g] have cin: "c \<in> snd ` set z" by force
  from up have s1: "safe_step (snd ` set z) t t1"
    by (auto simp: safe_step_refl makedirs_Inr split: if_splits)
  from fin cin have s2: "safe_step (snd ` set z) t1 t'"
    by (auto simp: safe_step_refl os_mkdir_safe write_file_safe split: if_splits)
  from s1 s2 show "safe_step (snd ` set z) t t'" by (rule safe_step_trans)
  show "is_dir (walk t' (base @ arcname m))" if "member_is_dir m"
    using fin that by (auto simp: os_mkdir_is_dir split: if_splits)
  show "is_file (walk t' (base @ arcname m))" if "\<not> member_is_dir m"
    using fin that by (auto simp: write_file_is_file)
qed

lemma grows_dir: "grows t t' \<Longrightarrow> is_dir (walk t q) \<Longrightarrow> is_dir (walk t' q)"
  by (simp add: grows_def)

lemma grows_file: "grows t t' \<Longrightarrow> is_file (walk t q) \<Longrightarrow> is_file (walk t' q)"
  by (simp add: grows_def)

lemma extract_members_Inr:
  assumes "extract_members z ms base t = Inr t'"
  shows "safe_step (snd ` set z) t t'"
    and "\<And>m. m \<in> set ms \<Longrightarrow> member_is_dir m \<Longrightarrow> is_dir (walk t' (base @ arcname m))"
    and "\<And>m. m \<in> set ms \<Longrightarrow> \<not> member_is_dir m \<Longrightarrow> is_file (walk t' (base @ arcname m))"
  using assms
proof (induction ms arbitrary: t)
  case Nil
  {
    case 1 then show ?case by (simp add: safe_step_refl)
  next
    case 2 then show ?case by simp
  next
    case 3 then show ?case by simp
  }
next
  case (Cons i ms)
  {
    case 1
    then obtain t1 where a: "extract_member z i base t = Inr t1"
      and b: "extract_members z ms base t1 = Inr t'"
      by (auto split: sum.splits)
    from extract_member_Inr(1)[OF a] Cons.IH(1)[OF b] show ?case by (rule safe_step_trans)
  next
    case (2 m)
    then obtain t1 where a: "extract_member z i base t = Inr t1"
      and b: "extract_members z ms base t1 = Inr t'"
      by (auto split: sum.splits)
    from Cons.IH(1)[OF b] have g: "grows t1 t'" by (simp add: safe_step_def)
    show ?case
    proof (cases "m \<in> set ms")
      case True
      with Cons.IH(2)[OF _ _ b] 2 show ?thesis by simp
    next
      case False
      with 2 have "m = i" by simp
      with extract_member_Inr(2)[OF a] 2 grows_dir[OF g] show ?thesis by simp
    qed
  next
    case (3 m)
    then obtain t1 where a: "extract_member z i base t = Inr t1"
      and b: "extract_members z ms base t1 = Inr t'"
      by (auto split: sum.splits)
    from Cons.IH(1)[OF b] have g: "grows t1 t'" by (simp add: safe_step_def)
    show ?case
    proof (cases "m \<in> set ms")
      case True
      with Cons.IH(3)[OF _ _ b] 3 show ?thesis by simp
    next
      case False
      with 3 have "m = i" by simp
      with extract_member_Inr(3)[OF a] 3 grows_file[OF g] show ?thesis by simp
    qed
  }
qed

lemma grows_extracted: "grows t t' \<Longrightarrow> extracted t base m \<Longrightarrow> extracted t' base m"
  by (auto simp: extracted_def grows_def)

lemma extract_members_extracted:
  "extract_members z ms base t = Inr t' \<Longrightarrow> m \<in> set ms \<Longrightarrow> extracted t' base m"
  using extract_members_Inr(2,3)[of z ms base t t' m] by (simp add: extracted_def)

lemma ZipFile_bytes_Inr: "ZipFile_bytes c = Inr z \<Longrightarrow> c = Zip z"
  by (cases c) (simp_all add: ZipFile_bytes_def)

lemma scan_Inr:
  "scan h cwd z fs t = Inr t' \<Longrightarrow>
     safe_step (inner_blobs h z) t t' \<and>
     (\<forall>f \<in> set fs. guess_type h f = Some expected_type \<longrightarrow>
        is_dir (walk t' (locate cwd (dirname f))) \<and>
        (\<exists>inner. read z f = Inr (Zip inner) \<and>
           (\<forall>i \<in> set (namelist inner). extracted t' (locate cwd (dirname f)) i)))"
proof (induction fs arbitrary: t)
  case Nil
  then show ?case by (simp add: safe_step_refl)
next
  case (Cons g fs)
  show ?case
  proof (cases "guess_type h g = Some expected_type")
    case False
    with Cons.prems have r: "scan h cwd z fs t = Inr t'" by simp
    from Cons.IH[OF r] False show ?thesis by auto
  next
    case True
    with Cons.prems obtain t1 content zip_file t2 where
      mk: "Path_mkdir (locate cwd (dirname g)) t = Inr t1"
      and rd: "read z g = Inr content"
      and zf: "ZipFile_bytes content = Inr zip_file"
      and ex: "extract_members zip_file (namelist zip_file) (locate cwd (dirname g)) t1 = Inr t2"
      and r: "scan h cwd z fs t2 = Inr t'"
      by (auto split: sum.splits)
    from ZipFile_bytes_Inr[OF zf] have c: "content = Zip zip_file" .
    from rd c have mem: "(g, Zip zip_file) \<in> set z"
      by (simp add: read_def getinfo_in)
    with True have sub: "snd ` set zip_file \<subseteq> inner_blobs h z"
      by (auto simp: inner_blobs_def)
    from Path_mkdir_Inr[OF mk, of "inner_blobs h z"]
    have s1: "safe_step (inner_blobs h z) t t1" and d1: "is_dir (walk t1 (locate cwd (dirname g)))"
      by simp_all
    from extract_members_Inr(1)[OF ex] sub
    have s2: "safe_step (inner_blobs h z) t1 t2" by (rule safe_step_mono)
    from Cons.IH[OF r] have s3: "safe_step (inner_blobs h z) t2 t'" by simp
    from s1 s2 s3 have s: "safe_step (inner_blobs h z) t t'"
      using safe_step_trans by blast
    from s2 s3 have g2: "grows t1 t'" using safe_step_trans safe_step_def by blast
    from s3 have g3: "grows t2 t'" by (simp add: safe_step_def)
    have here: "is_dir (walk t' (locate cwd (dirname g))) \<and>
            (\<exists>inner. read z g = Inr (Zip inner) \<and>
               (\<forall>i \<in> set (namelist inner). extracted t' (locate cwd (dirname g)) i))"
      using grows_dir[OF g2 d1] rd c extract_members_extracted[OF ex] grows_extracted[OF g3]
      by auto
    from s here Cons.IH[OF r] show ?thesis by auto
  qed
qed

section \<open>Path names that the kernel resolves\<close>

lemma split_slash_nonempty: "split_slash s \<noteq> []"
  by (induction s) (auto split: list.splits)

lemma split_slash_plain_slash:
  "CHR ''/'' \<notin> set c \<Longrightarrow> split_slash (c @ CHR ''/'' # r) = c # split_slash r"
  by (induction c) (auto split: list.splits)

lemma split_slash_getcwd:
  "list_all plain cwd \<Longrightarrow>
     split_slash (getcwd cwd @ ''/'' @ n) = (if cwd = [] then [[], []] else [] # cwd) @ split_slash n"
proof -
  have aux: "list_all plain ws \<Longrightarrow>
      split_slash (concat (map (\<lambda>c. ''/'' @ c) ws) @ ''/'' @ n) = [] # ws @ split_slash n" for ws
  proof (induction ws)
    case Nil
    show ?case by simp
  next
    case (Cons w ws)
    then have ws: "list_all plain ws" and "plain w" by simp_all
    then have w: "CHR ''/'' \<notin> set w" by (simp add: plain_def)
    obtain r where r: "concat (map (\<lambda>c. ''/'' @ c) ws) @ ''/'' @ n = CHR ''/'' # r"
      by (cases ws) auto
    with Cons.IH[OF ws] have sr: "split_slash r = ws @ split_slash n" by simp
    have "split_slash (concat (map (\<lambda>c. ''/'' @ c) (w # ws)) @ ''/'' @ n)
          = [] # split_slash (w @ CHR ''/'' # r)"
      using r by simp
    also have "\<dots> = [] # w # split_slash r" using w by (simp add: split_slash_plain_slash)
    finally show ?case using sr by simp
  qed
  have e: "(@) ''/'' = (#) CHR ''/''" by (rule ext) simp
  assume "list_all plain cwd"
  with aux[of cwd] show ?thesis by (simp add: getcwd_def e)
qed

lemma resolve_plain:
  "list_all plain ws \<Longrightarrow> is_dir (walk t (cur @ ws)) \<Longrightarrow>
     resolve t cur (ws @ comps) = resolve t (cur @ ws) comps"
proof (induction ws arbitrary: cur)
  case Nil
  show ?case by simp
next
  case (Cons w ws)
  from Cons.prems(2) have "walk t (cur @ (w # ws)) \<noteq> None"
    by (auto simp: is_dir_def split: option.splits)
  from walk_above_dir[OF this] have "is_dir (walk t cur)" by simp
  then obtain es where c: "walk t cur = Some (Dir es)"
    by (auto simp: is_dir_def split: option.splits node.splits)
  from Cons.prems(1) have ws: "list_all plain ws" and "plain w" by simp_all
  then have w: "w \<noteq> []" "w \<noteq> ''.''" "w \<noteq> ''..''"
    by (simp_all add: plain_def)
  from Cons.prems(2) have "is_dir (walk t ((cur @ [w]) @ ws))" by simp
  from Cons.IH[OF ws this] c w show ?case by simp
qed

lemma resolve_arcname:
  assumes "''..'' \<notin> set comps"
    and "walk t (cur @ filter (\<lambda>x. x \<notin> {[], ''.'', ''..''}) comps) \<noteq> None"
    and "comps \<noteq> [] \<Longrightarrow> last comps \<in> {[], ''.''} \<Longrightarrow>
           is_dir (walk t (cur @ filter (\<lambda>x. x \<notin> {[], ''.'', ''..''}) comps))"
  shows "resolve t cur comps = Inr (cur @ filter (\<lambda>x. x \<notin> {[], ''.'', ''..''}) comps)"
  using assms
proof (induction comps arbitrary: cur)
  case Nil
  show ?case by simp
next
  case (Cons c cs)
  let ?f = "filter (\<lambda>x. x \<notin> {[], ''.'', ''..''})"
  have d: "is_dir (walk t cur)"
  proof (cases "?f (c # cs) = []")
    case False
    from walk_above_dir[OF Cons.prems(2) False] show ?thesis .
  next
    case True
    have mem: "last (c # cs) \<in> set (c # cs)" by (rule last_in_set) simp
    from True have "\<forall>x \<in> set (c # cs). x \<in> {[], ''.'', ''..''}"
      unfolding filter_empty_conv by blast
    with mem have "last (c # cs) \<in> {[], ''.'', ''..''}" by blast
    moreover from Cons.prems(1) mem have "last (c # cs) \<noteq> ''..''" by metis
    ultimately have "last (c # cs) \<in> {[], ''.''}" by blast
    with Cons.prems(3) True show ?thesis by simp
  qed
  then obtain es where cur: "walk t cur = Some (Dir es)"
    by (auto simp: is_dir_def split: option.splits node.splits)
  from Cons.prems(1) have nd: "c \<noteq> ''..''" and nd': "''..'' \<notin> set cs" by auto
  show ?case
  proof (cases "c = [] \<or> c = ''.''")
    case True
    then have f: "?f (c # cs) = ?f cs" by auto
    have "resolve t cur cs = Inr (cur @ ?f cs)"
    proof (rule Cons.IH[OF nd'])
      show "walk t (cur @ ?f cs) \<noteq> None" using Cons.prems(2) f by simp
      show "is_dir (walk t (cur @ ?f cs))" if "cs \<noteq> []" "last cs \<in> {[], ''.''}"
        using Cons.prems(3) that f by simp
    qed
    with cur True f show ?thesis by auto
  next
    case False
    with nd have f: "?f (c # cs) = c # ?f cs" by simp
    have "resolve t (cur @ [c]) cs = Inr ((cur @ [c]) @ ?f cs)"
    proof (rule Cons.IH[OF nd'])
      show "walk t ((cur @ [c]) @ ?f cs) \<noteq> None" using Cons.prems(2) f by simp
      show "is_dir (walk t ((cur @ [c]) @ ?f cs))" if "cs \<noteq> []" "last cs \<in> {[], ''.''}"
        using Cons.prems(3) that f by simp
    qed
    with cur False nd show ?thesis by simp
  qed
qed

lemma last_split_slash_empty:
  "last (split_slash n) = [] \<Longrightarrow> n = [] \<or> last n = CHR ''/''"
  by (induction n) (auto split: list.splits if_splits simp: split_slash_nonempty)

lemma not_dir_and_file: "is_dir x \<Longrightarrow> is_file x \<Longrightarrow> False"
  by (auto simp: is_dir_def is_file_def split: option.splits node.splits)

section \<open>Rounding\<close>

lemma round2_close: "\<bar>round2 x - x\<bar> \<le> 1 / 200 \<and> (\<exists>k::int. round2 x = of_int k / 100)"
proof -
  have "\<bar>of_int (round_half_even y) - y\<bar> \<le> 1 / 2" for y :: real
    unfolding round_half_even_def Let_def by (auto simp: abs_if) linarith+
  from this[of "x * 100"] have "\<bar>round2 x - x\<bar> \<le> 1 / 200"
    unfolding round2_def by (simp add: field_simps abs_if split: if_splits)
  then show ?thesis unfolding round2_def by blast
qed

section \<open>Archive extractor: the claims\<close>

lemma extract_Some:
  assumes "extract h cwd filename t = Inr (Some result, t')"
  obtains z t1 where "ZipFile t cwd filename = Inr z"
    and "scan h cwd z (namelist z) t = Inr t1"
    and "extract_members z (namelist z) cwd t1 = Inr t'"
    and "result = map (\<lambda>res. getcwd cwd @ ''/'' @ res) (namelist z)"
  using assms
  by (auto simp: extract_def extractall_def split: if_splits sum.splits)

lemma sample_extract:
  "extract sample_host [''work''] ''fw.zip'' disk_before =
     Inr (Some [''/work/pkg/inner.zip'', ''/work/readme.txt''], disk_after)"
  by code_simp

lemma sample_ZipFile: "ZipFile disk_before [''work''] ''fw.zip'' = Inr outer_zip"
  by code_simp








text \<open>
  Claim C3 says that the directory of a nested zip is the entry's name without its
  extension and without its last path component.  The code splits that name at the
  slashes, drops the last piece and joins the rest with the empty string, not with a
  slash: for \<open>a/b/inner.zip\<close> the directory is \<open>ab\<close>, an entry of the working
  directory, where the claim has \<open>a/b\<close>.  The member \<open>tool.sh\<close> of that archive is
  written to \<open>/work/ab/tool.sh\<close>, and \<open>/work/a/b\<close>, which the flat extraction makes,
  does not hold it.  (For \<open>pkg/inner.zip\<close> the directory is \<open>pkg\<close> and for
  \<open>inner.zip\<close> the empty name, as the claim says.)
\<close>

theorem dirname_joins_without_slash:
  "dirname ''a/b/inner.zip'' = ''ab'' \<and>
   locate [''work''] (dirname ''a/b/inner.zip'') = [''work'', ''ab''] \<and>
   extract sample_host [''work''] ''fw.zip'' twolevel_before =
     Inr (Some [''/work/a/b/inner.zip''], twolevel_after) \<and>
   walk twolevel_after [''work'', ''ab'', ''tool.sh''] = Some (File (Raw ''run'')) \<and>
   walk twolevel_after [''work'', ''a'', ''b'', ''tool.sh''] = None \<and>
   dirname ''pkg/inner.zip'' = ''pkg'' \<and>
   dirname ''inner.zip'' = []"
  by code_simp

text \<open>
  Claim C4 says that every path of the returned list exists after the extraction.  The
  list joins the working directory with the names as the archive has them, while
  \<open>zipfile\<close> writes each entry under its cleaned name: the entry \<open>../x\<close> is written to
  \<open>/work/x\<close>, and the path returned for it, \<open>/work/../x\<close>, names nothing.
\<close>

theorem extract_returns_missing_path:
  "extract sample_host [''work''] ''fw.zip'' dotdot_before =
     Inr (Some [''/work/../x''], dotdot_after) \<and>
   \<not> path_exists dotdot_after [''work''] ''/work/../x''"
  by code_simp

text \<open>
  Claim C4, amended.  When \<open>extract\<close> succeeds, in a working directory that exists and
  whose path is made of plain names, it returns the working directory joined by a slash
  with each name of the outer archive's name list, in archive order; and the path
  returned for a name that has no \<open>..\<close> component and whose last component is not \<open>.\<close>
  exists on the disk that the extraction leaves.
\<close>

theorem extract_result_paths:
  assumes ex: "extract h cwd filename t = Inr (Some result, t')"
    and zf: "ZipFile t cwd filename = Inr z"
    and cwd: "is_dir (walk t cwd)" "list_all plain cwd"
  shows "result = map (\<lambda>res. getcwd cwd @ ''/'' @ res) (namelist z) \<and>
         (\<forall>n \<in> set (namelist z).
             ''..'' \<notin> set (split_slash n) \<and> last (split_slash n) \<noteq> ''.'' \<longrightarrow>
             path_exists t' cwd (getcwd cwd @ ''/'' @ n))"
proof -
  from ex obtain z' t1 where z': "ZipFile t cwd filename = Inr z'"
    and sc: "scan h cwd z' (namelist z') t = Inr t1"
    and ea: "extract_members z' (namelist z') cwd t1 = Inr t'"
    and res: "result = map (\<lambda>res. getcwd cwd @ ''/'' @ res) (namelist z')"
    by (rule extract_Some)
  from z' zf have zz: "z' = z" by simp
  have g: "grows t t'"
    using scan_Inr[OF sc] extract_members_Inr(1)[OF ea] grows_trans
    by (auto simp: safe_step_def)
  from grows_dir[OF g cwd(1)] have cd: "is_dir (walk t' cwd)" .
  have "path_exists t' cwd (getcwd cwd @ ''/'' @ n)"
    if n: "n \<in> set (namelist z)" and dd: "''..'' \<notin> set (split_slash n)"
      and dot: "last (split_slash n) \<noteq> ''.''" for n
  proof -
    from extract_members_extracted[OF ea] n zz have e: "extracted t' cwd n" by simp
    then have here: "walk t' (cwd @ arcname n) \<noteq> None"
      by (auto simp: extracted_def is_dir_def is_file_def split: if_splits option.splits)
    have tail: "is_dir (walk t' (cwd @ arcname n))" if "last (split_slash n) \<in> {[], ''.''}"
    proof -
      from that dot have "last (split_slash n) = []" by simp
      from last_split_slash_empty[OF this] show ?thesis
      proof
        assume "n = []"
        with e have "is_file (walk t' cwd)"
          by (simp add: extracted_def member_is_dir_def arcname_def)
        with cd show ?thesis using not_dir_and_file by blast
      next
        assume l: "last n = CHR ''/''"
        show ?thesis
        proof (cases "n = []")
          case True
          with e have "is_file (walk t' cwd)"
            by (simp add: extracted_def member_is_dir_def arcname_def)
          with cd show ?thesis using not_dir_and_file by blast
        next
          case False
          with l e show ?thesis by (simp add: extracted_def member_is_dir_def)
        qed
      qed
    qed
    have r1: "resolve t' cwd (split_slash n) = Inr (cwd @ arcname n)"
      unfolding arcname_def
      using dd here tail by (intro resolve_arcname) (simp_all add: arcname_def)
    have r0: "resolve t' [] (split_slash (getcwd cwd @ ''/'' @ n)) = resolve t' cwd (split_slash n)"
    proof (cases "cwd = []")
      case True
      with cd obtain es where "t' = Dir es" by (cases t') (auto simp: is_dir_def)
      with True show ?thesis by (simp add: getcwd_def)
    next
      case False
      from cd have "walk t' ([] @ cwd) \<noteq> None"
        by (auto simp: is_dir_def split: option.splits)
      from walk_above_dir[OF this False] obtain es where tr: "t' = Dir es"
        by (cases t') (auto simp: is_dir_def)
      have sp: "split_slash (getcwd cwd @ ''/'' @ n) = ([] # cwd) @ split_slash n"
        using split_slash_getcwd[OF cwd(2), of n] False by simp
      have "resolve t' [] (([] # cwd) @ split_slash n) = resolve t' [] (cwd @ split_slash n)"
        using tr by simp
      also have "\<dots> = resolve t' ([] @ cwd) (split_slash n)"
        using cwd(2) cd by (intro resolve_plain) simp_all
      finally have "resolve t' [] (([] # cwd) @ split_slash n) = resolve t' cwd (split_slash n)"
        by simp
      with sp show ?thesis by (simp only:)
    qed
    have nz: "getcwd cwd @ ''/'' @ n \<noteq> []" by simp
    have hd: "hd (getcwd cwd @ ''/'' @ n) = CHR ''/''"
      by (cases cwd) (simp_all add: getcwd_def)
    from r0 r1 here nz hd show ?thesis
      by (auto simp: path_exists_def lookup_def split: sum.splits option.splits)
  qed
  with res zz show ?thesis by blast
qed

theorem extract_result_paths_witness:
  "extract sample_host [''work''] ''fw.zip'' disk_before =
     Inr (Some [''/work/pkg/inner.zip'', ''/work/readme.txt''], disk_after) \<and>
   ZipFile disk_before [''work''] ''fw.zip'' = Inr outer_zip \<and>
   is_dir (walk disk_before [''work'']) \<and>
   list_all plain [''work''] \<and>
   [''/work/pkg/inner.zip'', ''/work/readme.txt''] =
     map (\<lambda>res. getcwd [''work''] @ ''/'' @ res) (namelist outer_zip) \<and>
   path_exists disk_after [''work''] ''/work/pkg/inner.zip'' \<and>
   path_exists disk_after [''work''] ''/work/readme.txt''"
proof -
  have d: "is_dir (walk disk_before [''work''])" by code_simp
  have p: "list_all plain [''work'']" by code_simp
  note c = extract_result_paths[OF sample_extract sample_ZipFile d p]
  have n: "namelist outer_zip = [''pkg/inner.zip'', ''readme.txt'']" by code_simp
  have s: "''..'' \<notin> set (split_slash ''pkg/inner.zip'')"
    "last (split_slash ''pkg/inner.zip'') \<noteq> ''.''"
    "''..'' \<notin> set (split_slash ''readme.txt'')"
    "last (split_slash ''readme.txt'') \<noteq> ''.''"
    by code_simp+
  have g: "getcwd [''work''] = ''/work''" by code_simp
  from c n s g have "path_exists disk_after [''work''] ''/work/pkg/inner.zip''"
    "path_exists disk_after [''work''] ''/work/readme.txt''"
    by auto
  with c d p sample_extract sample_ZipFile show ?thesis by simp
qed



section \<open>Wrappers: the claims\<close>

text \<open>
  Claim C6.  Whatever the wrapped function does, return, raise an exception of its own
  or be interrupted by the alarm (whose handler raises \<open>TimeoutError\<close> inside it), no
  alarm is pending when the timeout wrapper is left: its \<open>finally\<close> clause has run
  \<open>signal.alarm(0)\<close>.  The wrapper passes an exception on and returns nothing otherwise.
\<close>

theorem timeout_disarms_alarm:
  "alarm (snd (timeout seconds func w)) = 0 \<and>
   fst (timeout seconds func w) =
     (case fst (func (w\<lparr>sigalrm := handle_timeout, alarm := seconds\<rparr>)) of
        Inl e \<Rightarrow> Inl e
      | Inr result \<Rightarrow> Inr ())"
  by (simp add: timeout_def Let_def split: prod.split sum.split)

text \<open>
  Claim C7 says that the timing wrapper reports the elapsed time whether the wrapped
  call succeeds or fails.  It has no \<open>try\<close>: when the call raises, the exception leaves
  the wrapper before the second clock reading and the \<open>print\<close>.  A call that raises
  after five seconds leaves the console empty.
\<close>

theorem timer_silent_on_raise:
  "timer ''run_utility'' raises_late sample_world =
     (Inl (OtherError ''updater failed''), sample_world\<lparr>clock := 105\<rparr>) \<and>
   console (snd (timer ''run_utility'' raises_late sample_world)) = []"
  by (simp add: timer_def raises_late_def sample_world_def)

text \<open>
  Claim C7, amended.  When the wrapped call returns, the timing wrapper returns its
  result and prints one line more than the call did, the report of the difference of
  the clock readings after and before the call, rounded to two decimal places: a
  multiple of \<open>1/100\<close> within \<open>1/200\<close> of the difference.  When the wrapped call
  raises, the wrapper raises the same exception and prints nothing.
\<close>

theorem timer_reports_on_return:
  "(func w = (Inr result, w1) \<longrightarrow>
      (\<exists>duration.
         timer name func w = (Inr result, w1\<lparr>console := console w1 @ [Took name duration]\<rparr>) \<and>
         duration = round2 (clock w1 - clock w) \<and>
         \<bar>duration - (clock w1 - clock w)\<bar> \<le> 1 / 200 \<and>
         (\<exists>k::int. duration = of_int k / 100))) \<and>
   (func w = (Inl e, w1) \<longrightarrow> timer name func w = (Inl e, w1))"
  using round2_close[of "clock w1 - clock w"] by (simp add: timer_def)

theorem timer_reports_on_return_witness:
  "returns_late sample_world = (Inr (), sample_world\<lparr>clock := 102.345\<rparr>) \<and>
   timer ''run_utility'' returns_late sample_world =
     (Inr (), sample_world\<lparr>clock := 102.345, console := [Took ''run_utility'' 2.34]\<rparr>) \<and>
   raises_late sample_world =
     (Inl (OtherError ''updater failed''), sample_world\<lparr>clock := 105\<rparr>) \<and>
   timer ''run_utility'' raises_late sample_world =
     (Inl (OtherError ''updater failed''), sample_world\<lparr>clock := 105\<rparr>)"
proof -
  have a: "returns_late sample_world = (Inr (), sample_world\<lparr>clock := 102.345\<rparr>)"
    by (simp add: returns_late_def sample_world_def)
  have b: "raises_late sample_world =
      (Inl (OtherError ''updater failed''), sample_world\<lparr>clock := 105\<rparr>)"
    by (simp add: raises_late_def sample_world_def)
  have r: "round2 (clock (sample_world\<lparr>clock := 102.345\<rparr>) - clock sample_world) = 2.34"
    by (simp add: sample_world_def round2_def round_half_even_def)
  from timer_reports_on_return[where func = returns_late and w = sample_world
      and result = "()" and ?w1.0 = "sample_world\<lparr>clock := 102.345\<rparr>"
      and name = "''run_utility''"] a r
  have "timer ''run_utility'' returns_late sample_world =
     (Inr (), sample_world\<lparr>clock := 102.345, console := [Took ''run_utility'' 2.34]\<rparr>)"
    by (simp add: sample_world_def)
  moreover from timer_reports_on_return[where func = raises_late and w = sample_world
      and e = "OtherError ''updater failed''" and ?w1.0 = "sample_world\<lparr>clock := 105\<rparr>"
      and name = "''run_utility''"] b
  have "timer ''run_utility'' raises_late sample_world =
     (Inl (OtherError ''updater failed''), sample_world\<lparr>clock := 105\<rparr>)"
    by simp
  ultimately show ?thesis using a b by simp
qed

section \<open>Hardware probe: the claims\<close>

text \<open>
  Claim C8 says that the probe recognizes exactly 21 field identifiers.  The list of
  valid keywords has 22 entries, all different; \<open>processor-frequency\<close> is the last.
\<close>

theorem valid_keywords_not_21:
  "card (set valid_keywords) \<noteq> 21"
  by code_simp

text \<open>
  Claim C8, amended.  The probe recognizes exactly 22 field identifiers.  For every
  string that is not one of them it returns \<open>None\<close> and prints one line, the error
  notice naming the string; it does not raise and starts no process.
\<close>

theorem dmidecode_unrecognized:
  "card (set valid_keywords) = 22 \<and>
   (\<forall>string. string \<notin> set valid_keywords \<longrightarrow>
      dmidecode h string out =
        (Inr None, out @ [Text (''Error: '' @ string @ '' is not a valid keyword'')]))"
proof -
  have "card (set valid_keywords) = 22" by code_simp
  then show ?thesis by (simp add: dmidecode_def)
qed

theorem dmidecode_unrecognized_witness:
  "''bios-date'' \<notin> set valid_keywords \<and>
   dmidecode sample_host ''bios-date'' [] =
     (Inr None, [Text ''Error: bios-date is not a valid keyword''])"
proof -
  have n: "''bios-date'' \<notin> set valid_keywords" by code_simp
  with dmidecode_unrecognized[of sample_host "[]"] show ?thesis by simp
qed




section \<open>Orchestrator: the claim\<close>




end
